theory Spec2Isabelle
  imports Main "HOL-Library.Char_ord" "HOL-Library.List_Lexorder"
begin

section \<open>Python values\<close>

text \<open>
  The store of \<^verbatim>\<open>Basics.ipynb\<close> is dynamically typed: \<^verbatim>\<open>KV(int)\<close> fixes the key type at
  run time and \<^verbatim>\<open>set\<close> tests \<^verbatim>\<open>isinstance(key, self.type)\<close>. The values a key or a stored
  value can take are modelled by \<open>pyval\<close>: \<^verbatim>\<open>None\<close>, the unbounded integers and the
  strings. \<open>pytype\<close> are the classes of these values.
\<close>

datatype pyval = PyNone | PyInt int | PyStr string

datatype pytype = NoneType | IntType | StrType

fun type_of :: "pyval \<Rightarrow> pytype" where
  "type_of PyNone = NoneType"
| "type_of (PyInt _) = IntType"
| "type_of (PyStr _) = StrType"

definition isinstance :: "pyval \<Rightarrow> pytype \<Rightarrow> bool" where
  "isinstance v ty = (type_of v = ty)"

text \<open>
  Keys are compared with \<^verbatim>\<open><\<close> and \<^verbatim>\<open>==\<close>. Integers compare by value and strings
  lexicographically by character code, as in Python. The tree engine is specified over
  totally ordered keys, so the order is completed across classes by the rank
  \<^verbatim>\<open>None\<close> < integers < strings; inside one store all keys have the declared class.
\<close>

instantiation pyval :: linorder
begin

fun less_eq_pyval :: "pyval \<Rightarrow> pyval \<Rightarrow> bool" where
  "less_eq_pyval PyNone _ = True"
| "less_eq_pyval (PyInt _) PyNone = False"
| "less_eq_pyval (PyInt i) (PyInt j) = (i \<le> j)"
| "less_eq_pyval (PyInt _) (PyStr _) = True"
| "less_eq_pyval (PyStr s) (PyStr u) = (s \<le> u)"
| "less_eq_pyval (PyStr _) _ = False"

definition less_pyval :: "pyval \<Rightarrow> pyval \<Rightarrow> bool" where
  "less_pyval a b = (a \<le> b \<and> \<not> b \<le> a)"

instance
proof
  fix x y z :: pyval
  show "(x < y) = (x \<le> y \<and> \<not> y \<le> x)"
    by (simp add: less_pyval_def)
  show "x \<le> x"
    by (cases x) simp_all
  show "x \<le> y \<Longrightarrow> y \<le> z \<Longrightarrow> x \<le> z"
    by (cases x; cases y; cases z) auto
  show "x \<le> y \<Longrightarrow> y \<le> x \<Longrightarrow> x = y"
    by (cases x; cases y) auto
  show "x \<le> y \<or> y \<le> x"
    by (cases x; cases y) auto
qed

end

section \<open>The tree engine\<close>

text \<open>
  Modelled from the spec: the classes \<^verbatim>\<open>NodeKey\<close> and \<^verbatim>\<open>Node\<close> of the module \<^verbatim>\<open>btree\<close>
  (\<^verbatim>\<open>from btree import Node, BTree, NodeKey\<close>), the engine the store inherits from; the
  module is not part of the sources. A \<open>NodeKey\<close> is one entry, a key with its value. A
  \<open>Node\<close> has \<open>keys\<close>, "ordered sequence of (key, value) entries, kept sorted by key",
  and \<open>children\<close>, "ordered sequence of child node references, present only on internal
  nodes"; a node is a leaf exactly when \<open>children\<close> is empty.
\<close>

datatype NodeKey = NodeKey (nk_key: pyval) (nk_value: pyval)

datatype Node = Node (keys: "NodeKey list") (children: "Node list")

text \<open>
  Modelled from the spec: \<^verbatim>\<open>BTree.search\<close> of the module \<^verbatim>\<open>btree\<close>, which is not part
  of the sources. "Scan of \<^verbatim>\<open>node.keys\<close> for \<^verbatim>\<open>key\<close>; if found, return its value; if
  \<^verbatim>\<open>node\<close> is a leaf and not found, report NotFound; otherwise recurse into the
  appropriate child interval." NotFound is \<^verbatim>\<open>None\<close>, the value \<^verbatim>\<open>KV.get\<close> and \<^verbatim>\<open>KV.set\<close>
  test the result against. \<open>search_keys\<close> is the scan: it walks the entries and the
  children side by side, the head of the remaining children being the child to the
  left of the head of the remaining entries.
\<close>

fun search :: "Node \<Rightarrow> pyval \<Rightarrow> pyval"
  and search_keys :: "NodeKey list \<Rightarrow> Node list \<Rightarrow> pyval \<Rightarrow> pyval" where
  "search (Node ks cs) k = search_keys ks cs k"
| "search_keys [] [] k = PyNone"
| "search_keys [] (c # cs) k = search c k"
| "search_keys (e # ks) [] k =
     (if nk_key e = k then nk_value e
      else if k < nk_key e then PyNone
      else search_keys ks [] k)"
| "search_keys (e # ks) (c # cs) k =
     (if nk_key e = k then nk_value e
      else if k < nk_key e then search c k
      else search_keys ks cs k)"

text \<open>
  Modelled from the spec: \<^verbatim>\<open>BTree.insert\<close> of the module \<^verbatim>\<open>btree\<close>. "If the root is
  full (\<open>2t-1\<close> entries), split it first, making a new root with a single median entry
  and two children, then proceed top-down: at each internal node, if the target child
  is full, split that child before descending, promoting its median entry into the
  current node. Insertion always terminates at a leaf that is guaranteed non-full."
  Split policy: "a full node's \<open>2t-1\<close> entries split into two nodes of \<open>t-1\<close> entries
  each; the median entry is promoted to the parent; children (if internal) are
  partitioned \<open>t\<close> to the left, \<open>t\<close> to the right." No duplicate suppression happens
  here.
\<close>

definition full :: "nat \<Rightarrow> Node \<Rightarrow> bool" where
  "full t n = (length (keys n) + 1 = 2 * t)"

definition split_node :: "nat \<Rightarrow> Node \<Rightarrow> Node \<times> NodeKey \<times> Node" where
  "split_node t n =
     (Node (take (t - 1) (keys n)) (take t (children n)),
      keys n ! (t - 1),
      Node (drop t (keys n)) (drop t (children n)))"

fun ins_entry :: "NodeKey \<Rightarrow> NodeKey list \<Rightarrow> NodeKey list" where
  "ins_entry e [] = [e]"
| "ins_entry e (x # xs) =
     (if nk_key e < nk_key x then e # x # xs else x # ins_entry e xs)"

text \<open>
  Modelled from the spec: the descent of \<^verbatim>\<open>BTree.insert\<close>, "a single top-to-bottom
  traversal". \<open>insert_non_full\<close> places the entry in a leaf, or finds the target child with
  \<open>insert_child\<close> (entries and children walked side by side) and descends into it with
  \<open>insert_into\<close>, which splits the child first when it is full and returns the entries
  and children that replace it in the parent. A node whose children run out before its
  entries is not a tree the engine builds; the entry is then placed among the remaining
  entries.
\<close>

function insert_non_full :: "nat \<Rightarrow> Node \<Rightarrow> NodeKey \<Rightarrow> Node"
  and insert_child :: "nat \<Rightarrow> NodeKey list \<Rightarrow> Node list \<Rightarrow> NodeKey \<Rightarrow> NodeKey list \<times> Node list"
  and insert_into :: "nat \<Rightarrow> Node \<Rightarrow> NodeKey \<Rightarrow> NodeKey list \<times> Node list" where
  "insert_non_full t (Node ks []) e = Node (ins_entry e ks) []"
| "insert_non_full t (Node ks (c # cs)) e =
     (case insert_child t ks (c # cs) e of (ks', cs') \<Rightarrow> Node ks' cs')"
| "insert_child t ks [] e = (ins_entry e ks, [])"
| "insert_child t [] (c # cs) e =
     (case insert_into t c e of (ks1, cs1) \<Rightarrow> (ks1, cs1 @ cs))"
| "insert_child t (k # ks) (c # cs) e =
     (if nk_key e < nk_key k
      then (case insert_into t c e of (ks1, cs1) \<Rightarrow> (ks1 @ k # ks, cs1 @ cs))
      else (case insert_child t ks cs e of (ks', cs') \<Rightarrow> (k # ks', c # cs')))"
| "insert_into t c e =
     (if full t c
      then (case split_node t c of (l, m, r) \<Rightarrow>
              if nk_key e < nk_key m
              then ([m], [insert_non_full t l e, r])
              else ([m], [l, insert_non_full t r e]))
      else ([], [insert_non_full t c e]))"
  by pat_completeness auto
termination
proof -
  have tk: "size_list f (take n xs) \<le> size_list f xs" for f :: "'a \<Rightarrow> nat" and n xs
    by (induction xs arbitrary: n) (auto simp: take_Cons split: nat.splits)
  have dr: "size_list f (drop n xs) \<le> size_list f xs" for f :: "'a \<Rightarrow> nat" and n xs
  proof (induction xs arbitrary: n)
    case Nil
    show ?case by simp
  next
    case (Cons a xs)
    show ?case
    proof (cases n)
      case 0
      then show ?thesis by simp
    next
      case (Suc m)
      then show ?thesis using Cons.IH [of m] by simp
    qed
  qed
  have sz: "size l \<le> size c \<and> size r \<le> size c"
    if "(l, m, r) = split_node t c" for l m r t c
  proof -
    obtain ks cs where c: "c = Node ks cs" by (cases c)
    have l: "l = Node (take (t - 1) ks) (take t cs)"
      and r: "r = Node (drop t ks) (drop t cs)"
      using that by (auto simp: split_node_def c)
    show ?thesis
      unfolding l r c
      using tk [of size "t - 1" ks] tk [of size t cs] dr [of size t ks] dr [of size t cs]
      by simp
  qed
  show ?thesis
    by (relation "measure (\<lambda>x. case x of
          Inl (t, n, e) \<Rightarrow> 3 * size n
        | Inr (Inl (t, ks, cs, e)) \<Rightarrow> 3 * size_list size cs + 2
        | Inr (Inr (t, c, e)) \<Rightarrow> 3 * size c + 1)")
       (auto dest: sz)
qed

definition btree_insert :: "nat \<Rightarrow> Node \<Rightarrow> NodeKey \<Rightarrow> Node" where
  "btree_insert t r e =
     (if full t r
      then (case split_node t r of (l, m, c) \<Rightarrow> insert_non_full t (Node [m] [l, c]) e)
      else insert_non_full t r e)"

text \<open>
  Modelled from the spec: \<^verbatim>\<open>BTree.less_than\<close> of the module \<^verbatim>\<open>btree\<close>. "Produces all
  entries with key \<open>< bound\<close> (or \<open>\<le> bound\<close> if inclusive), visiting left-to-right across
  subtrees whose key ranges fall under the bound, pruning subtrees entirely above it.
  Result order is ascending key order."
\<close>

fun less_than :: "Node \<Rightarrow> pyval \<Rightarrow> bool \<Rightarrow> NodeKey list"
  and less_than_keys :: "NodeKey list \<Rightarrow> Node list \<Rightarrow> pyval \<Rightarrow> bool \<Rightarrow> NodeKey list" where
  "less_than (Node ks cs) b inc = less_than_keys ks cs b inc"
| "less_than_keys [] [] b inc = []"
| "less_than_keys [] (c # cs) b inc = less_than c b inc"
| "less_than_keys (e # ks) [] b inc =
     (if nk_key e < b then e # less_than_keys ks [] b inc
      else if inc \<and> nk_key e = b then [e] else [])"
| "less_than_keys (e # ks) (c # cs) b inc =
     less_than c b inc @
     (if nk_key e < b then e # less_than_keys ks cs b inc
      else if inc \<and> nk_key e = b then [e] else [])"

text \<open>
  Modelled from the spec: \<^verbatim>\<open>BTree.greater_than\<close> of the module \<^verbatim>\<open>btree\<close>. "Produces
  entries with key \<open>> lower\<close> (or \<open>\<ge> lower\<close>), additionally bounded above by
  \<^verbatim>\<open>upper_bound\<close> when supplied (using the same inclusive flag symmetrically). Both bound
  checks are evaluated before entry inclusion; a tree-range check first eliminates
  subtrees wholly outside \<open>[lower, upper_bound]\<close>." \<^verbatim>\<open>upper_bound=None\<close> is no bound.
\<close>

definition above_lower :: "pyval \<Rightarrow> pyval \<Rightarrow> bool \<Rightarrow> bool" where
  "above_lower k lower inc = (lower < k \<or> (inc \<and> k = lower))"

definition below_upper :: "pyval \<Rightarrow> pyval \<Rightarrow> bool \<Rightarrow> bool" where
  "below_upper k upper_bound inc =
     (upper_bound = PyNone \<or> k < upper_bound \<or> (inc \<and> k = upper_bound))"

fun greater_than :: "Node \<Rightarrow> pyval \<Rightarrow> pyval \<Rightarrow> bool \<Rightarrow> NodeKey list"
  and greater_than_keys ::
    "NodeKey list \<Rightarrow> Node list \<Rightarrow> pyval \<Rightarrow> pyval \<Rightarrow> bool \<Rightarrow> NodeKey list" where
  "greater_than (Node ks cs) lo ub inc = greater_than_keys ks cs lo ub inc"
| "greater_than_keys [] [] lo ub inc = []"
| "greater_than_keys [] (c # cs) lo ub inc = greater_than c lo ub inc"
| "greater_than_keys (e # ks) [] lo ub inc =
     (if nk_key e < lo then greater_than_keys ks [] lo ub inc
      else if below_upper (nk_key e) ub inc
      then (if above_lower (nk_key e) lo inc then [e] else []) @
           greater_than_keys ks [] lo ub inc
      else [])"
| "greater_than_keys (e # ks) (c # cs) lo ub inc =
     (if nk_key e < lo then greater_than_keys ks cs lo ub inc
      else greater_than c lo ub inc @
           (if below_upper (nk_key e) ub inc
            then (if above_lower (nk_key e) lo inc then [e] else []) @
                 greater_than_keys ks cs lo ub inc
            else []))"

section \<open>The typed store\<close>

text \<open>
  \<^verbatim>\<open>class KV(BTree)\<close>. The object has the fields \<^verbatim>\<open>root\<close> and \<^verbatim>\<open>t\<close> of the engine and
  \<^verbatim>\<open>type\<close>, the declared class of the keys.
\<close>

record KV =
  kv_root :: Node
  kv_type :: pytype
  kv_t :: nat

text \<open>
  The exceptions of the store, one constructor for each \<^verbatim>\<open>raise\<close> of the class:
  \<open>KeyNotFound\<close> is the \<^verbatim>\<open>KeyError\<close> of \<^verbatim>\<open>get\<close>, \<open>InvalidValue\<close> the \<^verbatim>\<open>ValueError\<close>
  "Cannot store None values", \<open>KeyTypeMismatch\<close> the \<^verbatim>\<open>KeyError\<close> "Key must be of type",
  \<open>DuplicateKey\<close> the \<^verbatim>\<open>ValueError\<close> "Cannot store duplicate key values" and
  \<open>InvalidInterval\<close> the \<^verbatim>\<open>ValueError\<close> "The first argument must be a list or tuple of
  length 2". The others are raised by the interpreter and the library: \<open>TypeError\<close> by
  \<^verbatim>\<open>len\<close> of an object without a length, \<open>UnpackError\<close> by the assignment
  \<^verbatim>\<open>lower, upper = interval\<close> when the right-hand side does not have two elements,
  \<open>OSError\<close> by \<^verbatim>\<open>open\<close> and by writing, \<open>FileNotFoundError\<close> by \<^verbatim>\<open>open\<close> for reading,
  \<open>UnpicklingError\<close> by \<^verbatim>\<open>pickle.load\<close>.
\<close>

datatype error =
    KeyNotFound
  | InvalidValue
  | KeyTypeMismatch
  | DuplicateKey
  | InvalidInterval
  | TypeError
  | UnpackError
  | OSError
  | FileNotFoundError
  | UnpicklingError

text \<open>
  Modelled from the spec: \<^verbatim>\<open>BTree.__init__\<close> of the module \<^verbatim>\<open>btree\<close>, which fixes the
  degree and creates the store empty.
\<close>

definition BTree_init :: "nat \<Rightarrow> Node \<times> nat" where
  "BTree_init t = (Node [] [], t)"

text \<open>
  \<^verbatim>\<open>def __init__(self, type_, values=None)\<close>: sets \<^verbatim>\<open>self.type\<close> and calls
  \<^verbatim>\<open>super().__init__(10)\<close>. The body never reads \<^verbatim>\<open>values\<close>.
\<close>

definition KV_init :: "pytype \<Rightarrow> (pyval \<times> pyval) list option \<Rightarrow> KV" where
  "KV_init type_a values =
     (case BTree_init 10 of (r, t) \<Rightarrow> \<lparr>kv_root = r, kv_type = type_a, kv_t = t\<rparr>)"

definition kv_get :: "KV \<Rightarrow> pyval \<Rightarrow> error + pyval" where
  "kv_get self k =
     (let v = search (kv_root self) k
      in if v = PyNone then Inl KeyNotFound else Inr v)"

text \<open>
  \<^verbatim>\<open>set\<close> mutates the store, so it returns the outcome (an exception or nothing)
  together with the store after the call.
\<close>

definition kv_set :: "KV \<Rightarrow> pyval \<Rightarrow> pyval \<Rightarrow> (error + unit) \<times> KV" where
  "kv_set self k v =
     (if v = PyNone then (Inl InvalidValue, self)
      else if \<not> isinstance k (kv_type self) then (Inl KeyTypeMismatch, self)
      else let exists = search (kv_root self) k
           in if exists \<noteq> PyNone then (Inl DuplicateKey, self)
              else (Inr (),
                    self\<lparr>kv_root := btree_insert (kv_t self) (kv_root self) (NodeKey k v)\<rparr>))"

text \<open>
  The argument \<^verbatim>\<open>interval\<close> of \<^verbatim>\<open>range_query\<close> is any object: a list, a tuple, or
  something else (here one of the values of \<open>pyval\<close>). \<^verbatim>\<open>len\<close> of a string is its number
  of characters and \<^verbatim>\<open>len\<close> of \<^verbatim>\<open>None\<close> or of an integer raises; unpacking a string
  yields its characters.
\<close>

datatype pyobj = PyList "pyval list" | PyTuple "pyval list" | PyVal pyval

fun is_list_or_tuple :: "pyobj \<Rightarrow> bool" where
  "is_list_or_tuple (PyList _) = True"
| "is_list_or_tuple (PyTuple _) = True"
| "is_list_or_tuple (PyVal _) = False"

fun py_len :: "pyobj \<Rightarrow> error + nat" where
  "py_len (PyList xs) = Inr (length xs)"
| "py_len (PyTuple xs) = Inr (length xs)"
| "py_len (PyVal (PyStr s)) = Inr (length s)"
| "py_len (PyVal _) = Inl TypeError"

fun unpack_list :: "pyval list \<Rightarrow> error + pyval \<times> pyval" where
  "unpack_list [a, b] = Inr (a, b)"
| "unpack_list _ = Inl UnpackError"

fun unpack2 :: "pyobj \<Rightarrow> error + pyval \<times> pyval" where
  "unpack2 (PyList xs) = unpack_list xs"
| "unpack2 (PyTuple xs) = unpack_list xs"
| "unpack2 (PyVal (PyStr s)) = unpack_list (map (\<lambda>c. PyStr [c]) s)"
| "unpack2 (PyVal _) = Inl TypeError"

text \<open>
  \<^verbatim>\<open>if not isinstance(interval, (list, tuple)) and len(interval) != 2: raise ValueError\<close>:
  \<^verbatim>\<open>and\<close> evaluates \<^verbatim>\<open>len\<close> only when the first operand is true.
\<close>

definition interval_guard :: "pyobj \<Rightarrow> error + bool" where
  "interval_guard interval =
     (if \<not> is_list_or_tuple interval
      then (case py_len interval of Inl e \<Rightarrow> Inl e | Inr n \<Rightarrow> Inr (n \<noteq> 2))
      else Inr False)"

definition kv_range_query :: "KV \<Rightarrow> pyobj \<Rightarrow> bool \<Rightarrow> error + NodeKey list" where
  "kv_range_query self interval inclusive =
     (case interval_guard interval of
        Inl e \<Rightarrow> Inl e
      | Inr True \<Rightarrow> Inl InvalidInterval
      | Inr False \<Rightarrow>
          (case unpack2 interval of
             Inl e \<Rightarrow> Inl e
           | Inr (lower, upper) \<Rightarrow>
               if lower = PyNone
               then Inr (less_than (kv_root self) upper inclusive)
               else Inr (greater_than (kv_root self) lower upper inclusive)))"

text \<open>
  Files. \<^verbatim>\<open>pickle.dump(self, f)\<close> writes an image of the whole object and
  \<^verbatim>\<open>pickle.load(f)\<close> rebuilds the object from such an image; a file holds a pickled
  store or something else. Whether a path can be opened for writing and whether the
  write goes through are conditions of the environment.
\<close>

datatype file_content = Pickled KV | Other

record filesystem =
  files :: "string \<rightharpoonup> file_content"
  can_open_w :: "string \<Rightarrow> bool"
  can_write :: "string \<Rightarrow> bool"

text \<open>
  \<^verbatim>\<open>dump\<close>: \<^verbatim>\<open>open(filename, 'wb')\<close> creates or truncates the file or raises;
  \<^verbatim>\<open>pickle.dump\<close> inside the \<^verbatim>\<open>with\<close> block raises or is followed by \<^verbatim>\<open>return True\<close>.
  The \<^verbatim>\<open>return False\<close> after the block is not reached: the block returns or raises, and
  the file's context manager does not suppress exceptions.
\<close>

definition kv_dump :: "KV \<Rightarrow> string \<Rightarrow> filesystem \<Rightarrow> (error + bool) \<times> filesystem" where
  "kv_dump self filename fs =
     (let filename = filename @ ''.db''
      in if \<not> can_open_w fs filename then (Inl OSError, fs)
         else if \<not> can_write fs filename
         then (Inl OSError, fs\<lparr>files := (files fs)(filename \<mapsto> Other)\<rparr>)
         else (Inr True, fs\<lparr>files := (files fs)(filename \<mapsto> Pickled self)\<rparr>))"

definition kv_load :: "string \<Rightarrow> filesystem \<Rightarrow> error + KV" where
  "kv_load filename fs =
     (let filename = filename @ ''.db''
      in case files fs filename of
           None \<Rightarrow> Inl FileNotFoundError
         | Some Other \<Rightarrow> Inl UnpicklingError
         | Some (Pickled kv) \<Rightarrow> Inr kv)"

text \<open>
  \<^verbatim>\<open>load_from_dict\<close>: the dictionary is the list of its items in iteration order. An
  exception of \<^verbatim>\<open>set\<close> ends the loop and leaves the store as it is at that point.
\<close>

fun kv_load_from_dict :: "KV \<Rightarrow> (pyval \<times> pyval) list \<Rightarrow> (error + unit) \<times> KV" where
  "kv_load_from_dict self [] = (Inr (), self)"
| "kv_load_from_dict self ((k, v) # dictionary) =
     (case kv_set self k v of
        (Inl e, self') \<Rightarrow> (Inl e, self')
      | (Inr _, self') \<Rightarrow> kv_load_from_dict self' dictionary)"

section \<open>Specification vocabulary\<close>

text \<open>
  The in-order sequence of the entries of a tree: the abstraction the engine's
  operations are specified against.
\<close>

fun inorder :: "Node \<Rightarrow> NodeKey list"
  and inorder_keys :: "NodeKey list \<Rightarrow> Node list \<Rightarrow> NodeKey list" where
  "inorder (Node ks cs) = inorder_keys ks cs"
| "inorder_keys [] [] = []"
| "inorder_keys [] (c # cs) = inorder c"
| "inorder_keys (e # ks) [] = e # inorder_keys ks []"
| "inorder_keys (e # ks) (c # cs) = inorder c @ e # inorder_keys ks cs"

text \<open>
  The entries of a tree are strictly ascending by key when the tree is an ordered map.
  \<open>lookup\<close> is the search in the in-order sequence, with \<^verbatim>\<open>None\<close> for an absent key.
\<close>

abbreviation key_sorted :: "NodeKey list \<Rightarrow> bool" where
  "key_sorted xs \<equiv> sorted_wrt (\<lambda>a b. nk_key a < nk_key b) xs"

fun lookup :: "NodeKey list \<Rightarrow> pyval \<Rightarrow> pyval" where
  "lookup [] k = PyNone"
| "lookup (e # xs) k = (if nk_key e = k then nk_value e else lookup xs k)"

text \<open>The entries selected by \<^verbatim>\<open>less_than\<close> and by \<^verbatim>\<open>greater_than\<close>.\<close>

definition in_less :: "pyval \<Rightarrow> bool \<Rightarrow> NodeKey \<Rightarrow> bool" where
  "in_less b inc x = (nk_key x < b \<or> (inc \<and> nk_key x = b))"

definition in_range :: "pyval \<Rightarrow> pyval \<Rightarrow> bool \<Rightarrow> NodeKey \<Rightarrow> bool" where
  "in_range lo ub inc x = (above_lower (nk_key x) lo inc \<and> below_upper (nk_key x) ub inc)"

text \<open>
  The entries a store holds, in key order, and its keys. The invariant of a store: its
  entries are strictly ascending by key, no value is \<^verbatim>\<open>None\<close> and every key is an
  instance of the declared class.
\<close>

definition stored :: "KV \<Rightarrow> NodeKey list" where
  "stored self = inorder (kv_root self)"

definition stored_keys :: "KV \<Rightarrow> pyval set" where
  "stored_keys self = nk_key ` set (stored self)"

definition kv_inv :: "KV \<Rightarrow> bool" where
  "kv_inv self =
     (key_sorted (stored self) \<and>
      (\<forall>x\<in>set (stored self). nk_value x \<noteq> PyNone \<and> isinstance (nk_key x) (kv_type self)))"

text \<open>
  The stores a client can build: by the constructor, by \<^verbatim>\<open>set\<close> and by
  \<^verbatim>\<open>load_from_dict\<close>, whether the call raises or not.
\<close>

inductive reachable :: "KV \<Rightarrow> bool" where
  init: "reachable (KV_init type_a values)"
| set: "reachable self \<Longrightarrow> reachable (snd (kv_set self k v))"
| load_from_dict: "reachable self \<Longrightarrow> reachable (snd (kv_load_from_dict self d))"

text \<open>
  \<open>set_step self (k, v)\<close> is the store after the call \<^verbatim>\<open>self.set(k, v)\<close>, so
  \<open>foldl set_step self kvs\<close> is the store after a sequence of calls. \<open>entries_of\<close> are
  the entries of the items of a dictionary.
\<close>

definition set_step :: "KV \<Rightarrow> pyval \<times> pyval \<Rightarrow> KV" where
  "set_step self kv = snd (kv_set self (fst kv) (snd kv))"

definition entries_of :: "(pyval \<times> pyval) list \<Rightarrow> NodeKey set" where
  "entries_of d = (\<lambda>(k, v). NodeKey k v) ` set d"

text \<open>
  The store of the notebook's closing example: \<^verbatim>\<open>db = KV(int)\<close> followed by
  \<^verbatim>\<open>db.set(1, 'hello')\<close>, \<^verbatim>\<open>db.set(2, 'world')\<close>, \<^verbatim>\<open>db.set(3, 'this')\<close>,
  \<^verbatim>\<open>db.set(4, 'is')\<close>.
\<close>

definition example_db :: KV where
  "example_db = foldl set_step (KV_init IntType None)
     [(PyInt 1, PyStr ''hello''), (PyInt 2, PyStr ''world''),
      (PyInt 3, PyStr ''this''), (PyInt 4, PyStr ''is'')]"

section \<open>The tree engine is an ordered map\<close>

lemma lookup_below: "\<forall>x\<in>set xs. k < nk_key x \<Longrightarrow> lookup xs k = PyNone"
  by (induction xs) auto

lemma lookup_append_below:
  "\<forall>x\<in>set ys. k < nk_key x \<Longrightarrow> lookup (xs @ ys) k = lookup xs k"
  by (induction xs) (auto simp: lookup_below)

lemma lookup_append_above:
  "\<forall>x\<in>set xs. nk_key x < k \<Longrightarrow> lookup (xs @ ys) k = lookup ys k"
  by (induction xs) auto

lemma search_lookup:
  "key_sorted (inorder n) \<Longrightarrow> search n k = lookup (inorder n) k"
  "key_sorted (inorder_keys ks cs) \<Longrightarrow> search_keys ks cs k = lookup (inorder_keys ks cs) k"
proof (induction n k and ks cs k rule: search_search_keys.induct)
  case (1 ks cs k)
  then show ?case by simp
next
  case (2 k)
  then show ?case by simp
next
  case (3 c cs k)
  then show ?case by simp
next
  case (4 e ks k)
  let ?rest = "inorder_keys ks []"
  from "4.prems" have srt: "key_sorted ?rest" and gt: "\<forall>x\<in>set ?rest. nk_key e < nk_key x"
    by simp_all
  show ?case
  proof (cases "nk_key e = k")
    case True
    then show ?thesis by simp
  next
    case ne: False
    show ?thesis
    proof (cases "k < nk_key e")
      case True
      with gt have "\<forall>x\<in>set ?rest. k < nk_key x" by fastforce
      then have "lookup ?rest k = PyNone" by (rule lookup_below)
      with ne True show ?thesis by simp
    next
      case False
      with ne "4.IH" srt show ?thesis by simp
    qed
  qed
next
  case (5 e ks c cs k)
  let ?rest = "inorder_keys ks cs"
  from "5.prems" have sc: "key_sorted (inorder c)" and srt: "key_sorted ?rest"
    and lt: "\<forall>x\<in>set (inorder c). nk_key x < nk_key e"
    and gt: "\<forall>x\<in>set ?rest. nk_key e < nk_key x"
    by (auto simp: sorted_wrt_append)
  show ?case
  proof (cases "nk_key e = k")
    case True
    with lt have "lookup (inorder c @ e # ?rest) k = lookup (e # ?rest) k"
      by (intro lookup_append_above) simp
    with True show ?thesis by simp
  next
    case ne: False
    show ?thesis
    proof (cases "k < nk_key e")
      case True
      with gt have "\<forall>x\<in>set (e # ?rest). k < nk_key x" by fastforce
      then have "lookup (inorder c @ e # ?rest) k = lookup (inorder c) k"
        by (rule lookup_append_below)
      with ne True "5.IH"(1) sc show ?thesis by simp
    next
      case False
      with ne have "nk_key e < k" by simp
      with lt have "\<forall>x\<in>set (inorder c). nk_key x < k" by fastforce
      then have "lookup (inorder c @ e # ?rest) k = lookup (e # ?rest) k"
        by (rule lookup_append_above)
      with ne False "5.IH"(2) srt show ?thesis by simp
    qed
  qed
qed

lemma inorder_keys_leaf: "inorder_keys ks [] = ks"
  by (induction ks) auto

lemma inorder_keys_nth:
  "i < length ks \<Longrightarrow>
   inorder_keys (take i ks) (take (Suc i) cs) @
     ks ! i # inorder_keys (drop (Suc i) ks) (drop (Suc i) cs) = inorder_keys ks cs"
proof (induction i arbitrary: ks cs)
  case 0
  then show ?case by (cases ks; cases cs) auto
next
  case (Suc i)
  from Suc.prems obtain k ks' where ks: "ks = k # ks'" and i: "i < length ks'"
    by (cases ks) auto
  show ?case
  proof (cases cs)
    case Nil
    then show ?thesis
      using id_take_nth_drop [OF Suc.prems] by (simp add: inorder_keys_leaf)
  next
    case (Cons c cs')
    then show ?thesis using Suc.IH [OF i, of cs'] by (simp add: ks)
  qed
qed

lemma split_node_inorder:
  assumes "full t c" and "split_node t c = (l, m, r)"
  shows "inorder c = inorder l @ m # inorder r"
proof -
  obtain ks cs where c: "c = Node ks cs" by (cases c)
  from assms(1) have t: "t - 1 < length ks" "Suc (t - 1) = t"
    by (auto simp: full_def c)
  from assms(2) have "l = Node (take (t - 1) ks) (take t cs)"
    "m = ks ! (t - 1)" "r = Node (drop t ks) (drop t cs)"
    by (auto simp: split_node_def c)
  then show ?thesis
    using inorder_keys_nth [OF t(1), of cs, symmetric] t(2) by (simp add: c)
qed

lemma ins_entry_left:
  "nk_key e < nk_key m \<Longrightarrow> ins_entry e (xs @ m # ys) = ins_entry e xs @ m # ys"
  by (induction xs) auto

lemma ins_entry_right:
  "\<forall>x\<in>set xs. \<not> nk_key e < nk_key x \<Longrightarrow> \<not> nk_key e < nk_key m \<Longrightarrow>
   ins_entry e (xs @ m # ys) = xs @ m # ins_entry e ys"
  by (induction xs) auto

lemma inorder_keys_append:
  "length cs1 = Suc (length ks1) \<Longrightarrow>
   inorder_keys (ks1 @ k # ks) (cs1 @ cs) = inorder_keys ks1 cs1 @ k # inorder_keys ks cs"
proof (induction ks1 arbitrary: cs1)
  case Nil
  then show ?case by (cases cs1) auto
next
  case (Cons a ks1)
  then show ?case by (cases cs1) auto
qed

lemma inorder_keys_extra:
  "length cs1 = Suc (length ks1) \<Longrightarrow> inorder_keys ks1 (cs1 @ cs) = inorder_keys ks1 cs1"
proof (induction ks1 arbitrary: cs1)
  case Nil
  then show ?case by (cases cs1) auto
next
  case (Cons a ks1)
  then show ?case by (cases cs1) auto
qed



lemma insert_inorder:
  "key_sorted (inorder n) \<Longrightarrow> inorder (insert_non_full t n e) = ins_entry e (inorder n)"
  "key_sorted (inorder_keys ks cs) \<Longrightarrow>
     inorder_keys (fst (insert_child t ks cs e)) (snd (insert_child t ks cs e))
       = ins_entry e (inorder_keys ks cs)"
  "key_sorted (inorder c) \<Longrightarrow>
     length (snd (insert_into t c e)) = Suc (length (fst (insert_into t c e))) \<and>
     inorder_keys (fst (insert_into t c e)) (snd (insert_into t c e)) = ins_entry e (inorder c)"
proof (induction t n e and t ks cs e and t c e
    rule: insert_non_full_insert_child_insert_into.induct)
  case (1 t ks e)
  show ?case by (simp add: inorder_keys_leaf)
next
  case (2 t ks c cs e)
  then show ?case by (simp add: case_prod_unfold)
next
  case (3 t ks e)
  show ?case by (simp add: inorder_keys_leaf)
next
  case (4 t c cs e)
  from "4.prems" have "key_sorted (inorder c)" by simp
  from "4.IH" [OF this] show ?case
    by (simp add: case_prod_unfold inorder_keys_extra)
next
  case (5 t k ks c cs e)
  let ?rest = "inorder_keys ks cs"
  from "5.prems" have sc: "key_sorted (inorder c)" and srt: "key_sorted ?rest"
    and lt: "\<forall>x\<in>set (inorder c). nk_key x < nk_key k"
    by (auto simp: sorted_wrt_append)
  show ?case
  proof (cases "nk_key e < nk_key k")
    case True
    from "5.IH"(1) [OF True sc] True show ?thesis
      by (simp add: case_prod_unfold inorder_keys_append ins_entry_left)
  next
    case False
    with lt have "\<forall>x\<in>set (inorder c). \<not> nk_key e < nk_key x" by fastforce
    then have "ins_entry e (inorder c @ k # ?rest) = inorder c @ k # ins_entry e ?rest"
      using False by (rule ins_entry_right)
    with "5.IH"(2) [OF False srt] False show ?thesis
      by (simp add: case_prod_unfold)
  qed
next
  case (6 t c e)
  show ?case
  proof (cases "full t c")
    case nf: False
    with "6.IH"(3) [OF nf "6.prems"] show ?thesis by simp
  next
    case fl: True
    obtain l m r where sp: "split_node t c = (l, m, r)" by (cases "split_node t c") auto
    have io: "inorder c = inorder l @ m # inorder r"
      using fl sp by (rule split_node_inorder)
    from "6.prems" io have sl: "key_sorted (inorder l)" and sr: "key_sorted (inorder r)"
      and lt: "\<forall>x\<in>set (inorder l). nk_key x < nk_key m"
      by (auto simp: sorted_wrt_append)
    show ?thesis
    proof (cases "nk_key e < nk_key m")
      case True
      from "6.IH"(1) [OF fl sp [symmetric] refl True sl] fl sp True io show ?thesis
        by (simp add: ins_entry_left)
    next
      case False
      with lt have "\<forall>x\<in>set (inorder l). \<not> nk_key e < nk_key x" by fastforce
      then have "ins_entry e (inorder l @ m # inorder r) = inorder l @ m # ins_entry e (inorder r)"
        using False by (rule ins_entry_right)
      with "6.IH"(2) [OF fl sp [symmetric] refl False sr] fl sp False io show ?thesis
        by simp
    qed
  qed
qed


lemma btree_insert_inorder:
  assumes "key_sorted (inorder r)"
  shows "inorder (btree_insert t r e) = ins_entry e (inorder r)"
proof (cases "full t r")
  case False
  then show ?thesis using assms by (simp add: btree_insert_def insert_inorder(1))
next
  case True
  obtain l m c where sp: "split_node t r = (l, m, c)" by (cases "split_node t r") auto
  have io: "inorder r = inorder l @ m # inorder c"
    using True sp by (rule split_node_inorder)
  have "inorder (Node [m] [l, c]) = inorder r" by (simp add: io)
  with assms have "inorder (insert_non_full t (Node [m] [l, c]) e) = ins_entry e (inorder r)"
    using insert_inorder(1) [of "Node [m] [l, c]" t e] by simp
  with True sp show ?thesis by (simp add: btree_insert_def)
qed

lemma set_ins_entry: "set (ins_entry e xs) = insert e (set xs)"
  by (induction xs) auto

lemma key_sorted_ins_entry:
  "key_sorted xs \<Longrightarrow> nk_key e \<notin> nk_key ` set xs \<Longrightarrow> key_sorted (ins_entry e xs)"
proof (induction xs)
  case Nil
  then show ?case by simp
next
  case (Cons x xs)
  show ?case
  proof (cases "nk_key e < nk_key x")
    case True
    with Cons.prems show ?thesis by fastforce
  next
    case False
    with Cons.prems have "nk_key x < nk_key e" by auto
    with Cons show ?thesis by (auto simp: set_ins_entry)
  qed
qed

lemma lookup_None_iff:
  "\<forall>x\<in>set xs. nk_value x \<noteq> PyNone \<Longrightarrow> (lookup xs k = PyNone) = (k \<notin> nk_key ` set xs)"
  by (induction xs) auto

lemma lookup_entry:
  "key_sorted xs \<Longrightarrow> x \<in> set xs \<Longrightarrow> lookup xs (nk_key x) = nk_value x"
  by (induction xs) auto

lemma filter_none: "\<forall>x\<in>set xs. \<not> P x \<Longrightarrow> filter P xs = []"
  by (induction xs) auto

lemma less_than_filter:
  "key_sorted (inorder n) \<Longrightarrow> less_than n b inc = filter (in_less b inc) (inorder n)"
  "key_sorted (inorder_keys ks cs) \<Longrightarrow>
     less_than_keys ks cs b inc = filter (in_less b inc) (inorder_keys ks cs)"
proof (induction n b inc and ks cs b inc rule: less_than_less_than_keys.induct)
  case (1 ks cs b inc)
  then show ?case by simp
next
  case (2 b inc)
  show ?case by simp
next
  case (3 c cs b inc)
  then show ?case by simp
next
  case (4 e ks b inc)
  let ?rest = "inorder_keys ks []"
  from "4.prems" have srt: "key_sorted ?rest" and gt: "\<forall>x\<in>set ?rest. nk_key e < nk_key x"
    by simp_all
  show ?case
  proof (cases "nk_key e < b")
    case True
    then have pe: "in_less b inc e" by (simp add: in_less_def)
    from True pe "4.IH" [OF True srt] show ?thesis by simp
  next
    case False
    then have pe: "in_less b inc e = (inc \<and> nk_key e = b)" by (simp add: in_less_def)
    from False gt have "\<forall>x\<in>set ?rest. \<not> in_less b inc x" by (fastforce simp: in_less_def)
    then have "filter (in_less b inc) ?rest = []" by (rule filter_none)
    with False pe show ?thesis by (cases "inc \<and> nk_key e = b") auto
  qed
next
  case (5 e ks c cs b inc)
  let ?rest = "inorder_keys ks cs"
  from "5.prems" have sc: "key_sorted (inorder c)" and srt: "key_sorted ?rest"
    and gt: "\<forall>x\<in>set ?rest. nk_key e < nk_key x"
    by (auto simp: sorted_wrt_append)
  note ihc = "5.IH"(1) [OF sc]
  show ?case
  proof (cases "nk_key e < b")
    case True
    then have pe: "in_less b inc e" by (simp add: in_less_def)
    from True pe "5.IH"(2) [OF True srt] ihc show ?thesis by simp
  next
    case False
    then have pe: "in_less b inc e = (inc \<and> nk_key e = b)" by (simp add: in_less_def)
    from False gt have "\<forall>x\<in>set ?rest. \<not> in_less b inc x" by (fastforce simp: in_less_def)
    then have "filter (in_less b inc) ?rest = []" by (rule filter_none)
    with False pe ihc show ?thesis by (cases "inc \<and> nk_key e = b") auto
  qed
qed

lemma greater_than_filter:
  "key_sorted (inorder n) \<Longrightarrow> greater_than n lo ub inc = filter (in_range lo ub inc) (inorder n)"
  "key_sorted (inorder_keys ks cs) \<Longrightarrow>
     greater_than_keys ks cs lo ub inc = filter (in_range lo ub inc) (inorder_keys ks cs)"
proof (induction n lo ub inc and ks cs lo ub inc rule: greater_than_greater_than_keys.induct)
  case (1 ks cs lo ub inc)
  then show ?case by simp
next
  case (2 lo ub inc)
  show ?case by simp
next
  case (3 c cs lo ub inc)
  then show ?case by simp
next
  case (4 e ks lo ub inc)
  let ?rest = "inorder_keys ks []"
  from "4.prems" have srt: "key_sorted ?rest" and gt: "\<forall>x\<in>set ?rest. nk_key e < nk_key x"
    by simp_all
  show ?case
  proof (cases "nk_key e < lo")
    case True
    then have pe: "\<not> in_range lo ub inc e" by (auto simp: in_range_def above_lower_def)
    from True pe "4.IH"(1) [OF True srt] show ?thesis by simp
  next
    case nlo: False
    show ?thesis
    proof (cases "below_upper (nk_key e) ub inc")
      case True
      then have pe: "in_range lo ub inc e = above_lower (nk_key e) lo inc"
        by (simp add: in_range_def)
      from nlo True pe "4.IH"(2) [OF nlo True srt] show ?thesis by simp
    next
      case False
      then have pe: "\<not> in_range lo ub inc e" by (simp add: in_range_def)
      from False gt have "\<forall>x\<in>set ?rest. \<not> in_range lo ub inc x"
        by (fastforce simp: in_range_def below_upper_def)
      then have "filter (in_range lo ub inc) ?rest = []" by (rule filter_none)
      with nlo False pe show ?thesis by simp
    qed
  qed
next
  case (5 e ks c cs lo ub inc)
  let ?rest = "inorder_keys ks cs"
  from "5.prems" have sc: "key_sorted (inorder c)" and srt: "key_sorted ?rest"
    and lt: "\<forall>x\<in>set (inorder c). nk_key x < nk_key e"
    and gt: "\<forall>x\<in>set ?rest. nk_key e < nk_key x"
    by (auto simp: sorted_wrt_append)
  show ?case
  proof (cases "nk_key e < lo")
    case True
    then have pe: "\<not> in_range lo ub inc e" by (auto simp: in_range_def above_lower_def)
    from True lt have "\<forall>x\<in>set (inorder c). \<not> in_range lo ub inc x"
      by (fastforce simp: in_range_def above_lower_def)
    then have "filter (in_range lo ub inc) (inorder c) = []" by (rule filter_none)
    with True pe "5.IH"(1) [OF True srt] show ?thesis by simp
  next
    case nlo: False
    note ihc = "5.IH"(2) [OF nlo sc]
    show ?thesis
    proof (cases "below_upper (nk_key e) ub inc")
      case True
      then have pe: "in_range lo ub inc e = above_lower (nk_key e) lo inc"
        by (simp add: in_range_def)
      from nlo True pe "5.IH"(3) [OF nlo True srt] ihc show ?thesis by simp
    next
      case False
      then have pe: "\<not> in_range lo ub inc e" by (simp add: in_range_def)
      from False gt have "\<forall>x\<in>set ?rest. \<not> in_range lo ub inc x"
        by (fastforce simp: in_range_def below_upper_def)
      then have "filter (in_range lo ub inc) ?rest = []" by (rule filter_none)
      with nlo False pe ihc show ?thesis by simp
    qed
  qed
qed

section \<open>The invariant of the store\<close>

lemma kv_inv_init: "kv_inv (KV_init type_a values)"
  by (simp add: kv_inv_def stored_def KV_init_def BTree_init_def)

lemma search_stored:
  "kv_inv self \<Longrightarrow> search (kv_root self) k = lookup (stored self) k"
  by (simp add: kv_inv_def stored_def search_lookup(1))

lemma search_None_iff:
  "kv_inv self \<Longrightarrow> (search (kv_root self) k = PyNone) = (k \<notin> stored_keys self)"
  using lookup_None_iff [of "stored self" k]
  by (simp add: search_stored stored_keys_def) (simp add: kv_inv_def)

lemma kv_set_ok:
  assumes "kv_inv self" and "v \<noteq> PyNone" and "isinstance k (kv_type self)"
    and "k \<notin> stored_keys self"
  shows "fst (kv_set self k v) = Inr ()"
    and "stored (snd (kv_set self k v)) = ins_entry (NodeKey k v) (stored self)"
    and "kv_type (snd (kv_set self k v)) = kv_type self"
    and "kv_t (snd (kv_set self k v)) = kv_t self"
proof -
  from assms(1,4) have s: "search (kv_root self) k = PyNone"
    by (simp add: search_None_iff)
  from assms(1) have srt: "key_sorted (inorder (kv_root self))"
    by (simp add: kv_inv_def stored_def)
  from s assms(2,3) show "fst (kv_set self k v) = Inr ()"
    and "kv_type (snd (kv_set self k v)) = kv_type self"
    and "kv_t (snd (kv_set self k v)) = kv_t self"
    by (simp_all add: kv_set_def)
  from s assms(2,3) show "stored (snd (kv_set self k v)) = ins_entry (NodeKey k v) (stored self)"
    by (simp add: kv_set_def stored_def btree_insert_inorder [OF srt])
qed

lemma kv_set_cases:
  assumes "kv_inv self"
  shows "(\<exists>e. fst (kv_set self k v) = Inl e \<and> snd (kv_set self k v) = self) \<or>
         (fst (kv_set self k v) = Inr () \<and> v \<noteq> PyNone \<and> isinstance k (kv_type self) \<and>
          k \<notin> stored_keys self)"
  using search_None_iff [OF assms, of k]
  by (auto simp: kv_set_def Let_def)

lemma kv_inv_ins:
  assumes "kv_inv self" and "v \<noteq> PyNone" and "isinstance k (kv_type self)"
    and "k \<notin> stored_keys self"
  shows "kv_inv (snd (kv_set self k v))"
proof -
  note ok = kv_set_ok [OF assms]
  from assms(1,4) have "key_sorted (ins_entry (NodeKey k v) (stored self))"
    by (intro key_sorted_ins_entry) (simp_all add: kv_inv_def stored_keys_def)
  with assms(1,2,3) show ?thesis
    unfolding kv_inv_def ok(2) ok(3) by (auto simp: set_ins_entry)
qed

lemma kv_inv_set: "kv_inv self \<Longrightarrow> kv_inv (snd (kv_set self k v))"
  using kv_set_cases [of self k v] kv_inv_ins [of self v k] by auto

lemma kv_inv_load_from_dict: "kv_inv self \<Longrightarrow> kv_inv (snd (kv_load_from_dict self d))"
proof (induction d arbitrary: self)
  case Nil
  then show ?case by simp
next
  case (Cons kv d)
  obtain k v where kv: "kv = (k, v)" by (cases kv)
  from kv_inv_set [OF Cons.prems, of k v] have inv: "kv_inv (snd (kv_set self k v))" .
  show ?case
  proof (cases "kv_set self k v")
    case (Pair r s)
    with inv have s: "kv_inv s" by simp
    show ?thesis
    proof (cases r)
      case (Inl e)
      with Pair s show ?thesis by (simp add: kv)
    next
      case (Inr u)
      with Pair Cons.IH [OF s] show ?thesis by (simp add: kv)
    qed
  qed
qed

lemma reachable_inv: "reachable self \<Longrightarrow> kv_inv self"
  by (induction rule: reachable.induct)
     (simp_all add: kv_inv_init kv_inv_set kv_inv_load_from_dict)

lemma kv_get_stored:
  assumes "kv_inv self" and "x \<in> set (stored self)"
  shows "kv_get self (nk_key x) = Inr (nk_value x)"
proof -
  from assms have "lookup (stored self) (nk_key x) = nk_value x"
    by (intro lookup_entry) (simp_all add: kv_inv_def)
  moreover from assms have "nk_value x \<noteq> PyNone" by (simp add: kv_inv_def)
  ultimately show ?thesis using assms(1) by (simp add: kv_get_def search_stored)
qed

lemma kv_get_absent_iff:
  "kv_inv self \<Longrightarrow> (kv_get self k = Inl KeyNotFound) = (k \<notin> stored_keys self)"
  using search_None_iff [of self k] by (auto simp: kv_get_def Let_def)

lemma kv_get_iff:
  assumes "kv_inv self"
  shows "(kv_get self (nk_key x) = Inr (nk_value x)) = (x \<in> set (stored self))"
proof
  assume "x \<in> set (stored self)"
  with assms show "kv_get self (nk_key x) = Inr (nk_value x)" by (rule kv_get_stored)
next
  assume g: "kv_get self (nk_key x) = Inr (nk_value x)"
  then have "kv_get self (nk_key x) \<noteq> Inl KeyNotFound" by simp
  with assms have "nk_key x \<in> stored_keys self" by (simp add: kv_get_absent_iff)
  then obtain y where y: "y \<in> set (stored self)" "nk_key y = nk_key x"
    by (auto simp: stored_keys_def)
  from kv_get_stored [OF assms y(1)] g y(2) have "nk_value y = nk_value x" by simp
  with y(2) have "y = x" by (simp add: NodeKey.expand)
  with y(1) show "x \<in> set (stored self)" by simp
qed

lemma stored_keys_ins:
  assumes "kv_inv self" and "v \<noteq> PyNone" and "isinstance k (kv_type self)"
    and "k \<notin> stored_keys self"
  shows "set (stored (snd (kv_set self k v))) = insert (NodeKey k v) (set (stored self))"
    and "stored_keys (snd (kv_set self k v)) = insert k (stored_keys self)"
  using kv_set_ok(2) [OF assms] by (simp_all add: stored_keys_def set_ins_entry)

lemma sets_state:
  assumes "kv_inv s" and "distinct (map fst kvs)"
    and "\<forall>(k, v)\<in>set kvs. isinstance k (kv_type s) \<and> v \<noteq> PyNone \<and> k \<notin> stored_keys s"
  shows "kv_inv (foldl set_step s kvs) \<and> kv_type (foldl set_step s kvs) = kv_type s \<and>
         set (stored (foldl set_step s kvs)) = set (stored s) \<union> entries_of kvs"
  using assms
proof (induction kvs arbitrary: s)
  case Nil
  then show ?case by (simp add: entries_of_def)
next
  case (Cons kv kvs)
  obtain k v where kv: "kv = (k, v)" by (cases kv)
  let ?s1 = "snd (kv_set s k v)"
  from Cons.prems(3) have h: "v \<noteq> PyNone" "isinstance k (kv_type s)" "k \<notin> stored_keys s"
    by (simp_all add: kv)
  note inv1 = kv_inv_ins [OF Cons.prems(1) h]
  note ty1 = kv_set_ok(3) [OF Cons.prems(1) h]
  note st1 = stored_keys_ins [OF Cons.prems(1) h]
  from Cons.prems(2) have d: "distinct (map fst kvs)" and nk: "k \<notin> fst ` set kvs"
    by (simp_all add: kv)
  have "\<forall>(k', v')\<in>set kvs. isinstance k' (kv_type ?s1) \<and> v' \<noteq> PyNone \<and> k' \<notin> stored_keys ?s1"
    using Cons.prems(3) nk by (force simp: ty1 st1(2))
  from Cons.IH [OF inv1 d this] show ?case
    by (simp add: kv set_step_def ty1 st1(1) entries_of_def)
qed

lemma nth_key_fresh:
  assumes "distinct (map fst kvs)" and "i < length kvs"
  shows "fst (kvs ! i) \<notin> fst ` set (take i kvs)"
proof -
  from id_take_nth_drop [OF assms(2)]
  have "map fst kvs = map fst (take i kvs @ kvs ! i # drop (Suc i) kvs)" by simp
  then have "map fst kvs = map fst (take i kvs) @ fst (kvs ! i) # map fst (drop (Suc i) kvs)"
    by simp
  with assms(1)
  have "distinct (map fst (take i kvs) @ fst (kvs ! i) # map fst (drop (Suc i) kvs))"
    by simp
  then show ?thesis by auto
qed

lemma example_db_eq:
  "example_db =
     \<lparr>kv_root = Node [NodeKey (PyInt 1) (PyStr ''hello''), NodeKey (PyInt 2) (PyStr ''world''),
                      NodeKey (PyInt 3) (PyStr ''this''), NodeKey (PyInt 4) (PyStr ''is'')] [],
      kv_type = IntType, kv_t = 10\<rparr>"
  by (simp add: example_db_def set_step_def kv_set_def KV_init_def BTree_init_def isinstance_def
      btree_insert_def full_def less_pyval_def)

lemma example_db_reachable: "reachable example_db"
  unfolding example_db_def by (simp add: set_step_def) (intro reachable.intros)

lemma example_db_stored:
  "stored example_db =
     [NodeKey (PyInt 1) (PyStr ''hello''), NodeKey (PyInt 2) (PyStr ''world''),
      NodeKey (PyInt 3) (PyStr ''this''), NodeKey (PyInt 4) (PyStr ''is'')]"
  by (simp add: example_db_eq stored_def)

lemma example_db_load5:
  "kv_load_from_dict example_db [(PyInt 5, PyStr ''a'')] =
    (Inr (),
     \<lparr>kv_root = Node [NodeKey (PyInt 1) (PyStr ''hello''), NodeKey (PyInt 2) (PyStr ''world''),
                      NodeKey (PyInt 3) (PyStr ''this''), NodeKey (PyInt 4) (PyStr ''is''),
                      NodeKey (PyInt 5) (PyStr ''a'')] [],
      kv_type = IntType, kv_t = 10\<rparr>)"
  by (simp add: example_db_eq kv_set_def isinstance_def btree_insert_def full_def less_pyval_def)

section \<open>Validation in \<open>set\<close>\<close>

text \<open>
  C3. \<^verbatim>\<open>set\<close> checks in a fixed order. A \<^verbatim>\<open>None\<close> value fails with \<open>InvalidValue\<close>
  whatever the key is, also a key of the wrong class. A key that is not an instance of
  the declared class fails with \<open>KeyTypeMismatch\<close> whatever the tree holds, so the
  outcome does not depend on the search for a duplicate. Only a key of the declared
  class that the search finds fails with \<open>DuplicateKey\<close>.
\<close>

theorem set_check_order:
  "(v = PyNone \<longrightarrow> fst (kv_set self k v) = Inl InvalidValue) \<and>
   (v \<noteq> PyNone \<and> \<not> isinstance k (kv_type self) \<longrightarrow>
      fst (kv_set self k v) = Inl KeyTypeMismatch) \<and>
   (v \<noteq> PyNone \<and> isinstance k (kv_type self) \<and> search (kv_root self) k \<noteq> PyNone \<longrightarrow>
      fst (kv_set self k v) = Inl DuplicateKey)"
  by (simp add: kv_set_def Let_def)

theorem set_check_order_witness:
  "fst (kv_set (KV_init IntType None) (PyStr ''a'') PyNone) = Inl InvalidValue \<and>
   \<not> isinstance (PyStr ''a'') (kv_type (KV_init IntType None)) \<and>
   fst (kv_set (KV_init IntType None) (PyStr ''a'') (PyInt 7)) = Inl KeyTypeMismatch \<and>
   isinstance (PyInt 1) (kv_type (snd (kv_set (KV_init IntType None) (PyInt 1) (PyStr ''hello'')))) \<and>
   search (kv_root (snd (kv_set (KV_init IntType None) (PyInt 1) (PyStr ''hello'')))) (PyInt 1)
     \<noteq> PyNone \<and>
   fst (kv_set (snd (kv_set (KV_init IntType None) (PyInt 1) (PyStr ''hello'')))
          (PyInt 1) (PyStr ''world'')) = Inl DuplicateKey"
proof -
  let ?kv0 = "KV_init IntType None"
  let ?kv1 = "snd (kv_set ?kv0 (PyInt 1) (PyStr ''hello''))"
  have kv1: "?kv1 = \<lparr>kv_root = Node [NodeKey (PyInt 1) (PyStr ''hello'')] [],
                      kv_type = IntType, kv_t = 10\<rparr>"
    by (simp add: kv_set_def KV_init_def BTree_init_def isinstance_def btree_insert_def
        full_def)
  have a: "fst (kv_set ?kv0 (PyStr ''a'') PyNone) = Inl InvalidValue"
    using set_check_order [of PyNone ?kv0 "PyStr ''a''"] by simp
  have b1: "\<not> isinstance (PyStr ''a'') (kv_type ?kv0)"
    by (simp add: KV_init_def BTree_init_def isinstance_def)
  have b: "fst (kv_set ?kv0 (PyStr ''a'') (PyInt 7)) = Inl KeyTypeMismatch"
    using set_check_order [of "PyInt 7" ?kv0 "PyStr ''a''"] b1 by simp
  have c1: "isinstance (PyInt 1) (kv_type ?kv1)"
    by (simp add: kv1 isinstance_def)
  have c2: "search (kv_root ?kv1) (PyInt 1) \<noteq> PyNone"
    by (simp add: kv1)
  have c: "fst (kv_set ?kv1 (PyInt 1) (PyStr ''world'')) = Inl DuplicateKey"
    using set_check_order [of "PyStr ''world''" ?kv1 "PyInt 1"] c1 c2 by simp
  show ?thesis using a b1 b c1 c2 c by blast
qed

text \<open>
  C8. A call of \<^verbatim>\<open>set\<close> that raises leaves the object as it was: root, key class and
  degree are those before the call. The exceptions it raises are \<open>InvalidValue\<close>,
  \<open>KeyTypeMismatch\<close> and \<open>DuplicateKey\<close>.
\<close>

theorem set_failure_unchanged:
  "fst (kv_set self k v) = Inl e \<Longrightarrow>
     snd (kv_set self k v) = self \<and> e \<in> {InvalidValue, KeyTypeMismatch, DuplicateKey}"
  by (auto simp: kv_set_def Let_def split: if_splits)

theorem set_failure_unchanged_witness:
  "fst (kv_set (snd (kv_set (KV_init IntType None) (PyInt 1) (PyStr ''hello'')))
          (PyInt 1) (PyStr ''world'')) = Inl DuplicateKey \<and>
   snd (kv_set (snd (kv_set (KV_init IntType None) (PyInt 1) (PyStr ''hello'')))
          (PyInt 1) (PyStr ''world'')) =
     snd (kv_set (KV_init IntType None) (PyInt 1) (PyStr ''hello''))"
proof -
  let ?kv1 = "snd (kv_set (KV_init IntType None) (PyInt 1) (PyStr ''hello''))"
  have kv1: "?kv1 = \<lparr>kv_root = Node [NodeKey (PyInt 1) (PyStr ''hello'')] [],
                      kv_type = IntType, kv_t = 10\<rparr>"
    by (simp add: kv_set_def KV_init_def BTree_init_def isinstance_def btree_insert_def
        full_def)
  have f: "fst (kv_set ?kv1 (PyInt 1) (PyStr ''world'')) = Inl DuplicateKey"
    unfolding kv1 by (simp add: kv_set_def isinstance_def)
  show ?thesis using f set_failure_unchanged [OF f] by simp
qed

section \<open>Lookup after insertion\<close>

text \<open>
  C1. Starting from a new store of key class \<open>ty\<close>, a sequence of calls of \<^verbatim>\<open>set\<close> with
  distinct keys of that class and values other than \<^verbatim>\<open>None\<close>: every call returns
  without an exception, and afterwards \<^verbatim>\<open>get\<close> on each key returns the value it was
  set with.
\<close>

theorem set_then_get:
  assumes "distinct (map fst kvs)"
    and "\<forall>(k, v)\<in>set kvs. isinstance k ty \<and> v \<noteq> PyNone"
  shows "(\<forall>i<length kvs.
            fst (kv_set (foldl set_step (KV_init ty vals) (take i kvs))
                   (fst (kvs ! i)) (snd (kvs ! i))) = Inr ()) \<and>
         (\<forall>(k, v)\<in>set kvs. kv_get (foldl set_step (KV_init ty vals) kvs) k = Inr v)"
proof -
  let ?s0 = "KV_init ty vals"
  have inv0: "kv_inv ?s0" by (rule kv_inv_init)
  have ty0: "kv_type ?s0 = ty" and e0: "stored ?s0 = []"
    by (simp_all add: KV_init_def BTree_init_def stored_def)
  have st: "kv_inv (foldl set_step ?s0 xs) \<and> kv_type (foldl set_step ?s0 xs) = ty \<and>
            set (stored (foldl set_step ?s0 xs)) = entries_of xs"
    if "distinct (map fst xs)" and "set xs \<subseteq> set kvs" for xs
  proof -
    from that(2) assms(2)
    have "\<forall>(k, v)\<in>set xs. isinstance k (kv_type ?s0) \<and> v \<noteq> PyNone \<and> k \<notin> stored_keys ?s0"
      by (auto simp: ty0 e0 stored_keys_def)
    from sets_state [OF inv0 that(1) this] show ?thesis by (simp add: ty0 e0)
  qed
  have one: "fst (kv_set (foldl set_step ?s0 (take i kvs)) (fst (kvs ! i)) (snd (kvs ! i))) = Inr ()"
    if i: "i < length kvs" for i
  proof -
    let ?s = "foldl set_step ?s0 (take i kvs)"
    have "distinct (map fst (take i kvs))"
      using assms(1) by (simp add: take_map [symmetric])
    from st [OF this set_take_subset]
    have inv: "kv_inv ?s" and ty: "kv_type ?s = ty" and es: "set (stored ?s) = entries_of (take i kvs)"
      by simp_all
    have "stored_keys ?s = fst ` set (take i kvs)"
      by (force simp: stored_keys_def es entries_of_def)
    with nth_key_fresh [OF assms(1) i] have fresh: "fst (kvs ! i) \<notin> stored_keys ?s" by simp
    from i have "kvs ! i \<in> set kvs" by simp
    with assms(2) have "isinstance (fst (kvs ! i)) ty" "snd (kvs ! i) \<noteq> PyNone"
      by (auto simp: case_prod_unfold)
    with inv ty fresh show ?thesis by (intro kv_set_ok(1)) simp_all
  qed
  have two: "kv_get (foldl set_step ?s0 kvs) k = Inr v" if "(k, v) \<in> set kvs" for k v
  proof -
    from st [OF assms(1) subset_refl]
    have inv: "kv_inv (foldl set_step ?s0 kvs)"
      and es: "set (stored (foldl set_step ?s0 kvs)) = entries_of kvs" by simp_all
    from that have "NodeKey k v \<in> set (stored (foldl set_step ?s0 kvs))"
      by (force simp: es entries_of_def)
    from kv_get_stored [OF inv this] show ?thesis by simp
  qed
  from one two show ?thesis by blast
qed

theorem set_then_get_witness:
  "distinct (map fst [(PyInt 2, PyStr ''world''), (PyInt 1, PyStr ''hello'')]) \<and>
   isinstance (PyInt 2) IntType \<and> PyStr ''world'' \<noteq> PyNone \<and>
   isinstance (PyInt 1) IntType \<and> PyStr ''hello'' \<noteq> PyNone \<and>
   kv_get (foldl set_step (KV_init IntType None)
             [(PyInt 2, PyStr ''world''), (PyInt 1, PyStr ''hello'')]) (PyInt 1)
     = Inr (PyStr ''hello'') \<and>
   kv_get (foldl set_step (KV_init IntType None)
             [(PyInt 2, PyStr ''world''), (PyInt 1, PyStr ''hello'')]) (PyInt 2)
     = Inr (PyStr ''world'')"
proof -
  let ?kvs = "[(PyInt 2, PyStr ''world''), (PyInt 1, PyStr ''hello'')]"
  have h1: "distinct (map fst ?kvs)" by simp
  have h2: "\<forall>(k, v)\<in>set ?kvs. isinstance k IntType \<and> v \<noteq> PyNone"
    by (simp add: isinstance_def)
  from set_then_get [OF h1 h2, of None]
  have g: "\<forall>(k, v)\<in>set ?kvs. kv_get (foldl set_step (KV_init IntType None) ?kvs) k = Inr v"
    by blast
  from g have g1: "kv_get (foldl set_step (KV_init IntType None) ?kvs) (PyInt 1)
                     = Inr (PyStr ''hello'')"
    by (simp del: foldl.simps)
  from g have g2: "kv_get (foldl set_step (KV_init IntType None) ?kvs) (PyInt 2)
                     = Inr (PyStr ''world'')"
    by (simp del: foldl.simps)
  have t: "isinstance (PyInt 2) IntType" "PyStr ''world'' \<noteq> PyNone"
    "isinstance (PyInt 1) IntType" "PyStr ''hello'' \<noteq> PyNone"
    by (simp_all add: isinstance_def)
  from h1 t g1 g2 show ?thesis by (intro conjI)
qed

section \<open>Range queries\<close>

lemma range_filters:
  "b \<noteq> PyNone \<Longrightarrow> in_range a b True x = (a \<le> nk_key x \<and> nk_key x \<le> b)"
  "b \<noteq> PyNone \<Longrightarrow> in_range a b False x = (a < nk_key x \<and> nk_key x < b)"
  "in_range a PyNone inc x = (if inc then a \<le> nk_key x else a < nk_key x)"
  "in_less b inc x = (if inc then nk_key x \<le> b else nk_key x < b)"
  by (auto simp: in_range_def in_less_def above_lower_def below_upper_def)

lemma range_query_list:
  assumes "kv_inv self"
  shows "kv_range_query self (PyList [a, b]) inc =
           Inr (if a = PyNone then filter (in_less b inc) (stored self)
                else filter (in_range a b inc) (stored self))"
    and "kv_range_query self (PyTuple xs) inc = kv_range_query self (PyList xs) inc"
proof -
  from assms have srt: "key_sorted (inorder (kv_root self))" by (simp add: kv_inv_def stored_def)
  show "kv_range_query self (PyList [a, b]) inc =
           Inr (if a = PyNone then filter (in_less b inc) (stored self)
                else filter (in_range a b inc) (stored self))"
    by (simp add: kv_range_query_def interval_guard_def stored_def
        less_than_filter(1) [OF srt] greater_than_filter(1) [OF srt])
  show "kv_range_query self (PyTuple xs) inc = kv_range_query self (PyList xs) inc"
    by (simp add: kv_range_query_def interval_guard_def)
qed

lemma range_query_sorted:
  assumes "kv_inv self" and "kv_range_query self i inc = Inr r"
  shows "key_sorted r"
proof -
  from assms(1) have srt: "key_sorted (inorder (kv_root self))"
    by (simp add: kv_inv_def stored_def)
  have flt: "key_sorted (filter P (inorder (kv_root self)))" for P
    using srt by (rule sorted_wrt_filter)
  show ?thesis
  proof (cases "interval_guard i")
    case (Inl e)
    with assms(2) show ?thesis by (simp add: kv_range_query_def)
  next
    case g: (Inr b)
    show ?thesis
    proof (cases "unpack2 i")
      case (Inl e)
      with g assms(2) show ?thesis by (cases b) (simp_all add: kv_range_query_def)
    next
      case (Inr p)
      obtain lo ub where p: "p = (lo, ub)" by (cases p)
      from assms(2) g Inr p
      have "r = (if lo = PyNone then less_than (kv_root self) ub inc
                 else greater_than (kv_root self) lo ub inc)"
        by (cases b) (auto simp: kv_range_query_def split: if_splits)
      then show ?thesis
        using flt by (simp add: less_than_filter(1) [OF srt] greater_than_filter(1) [OF srt])
    qed
  qed
qed

text \<open>
  C2. In a store built through the interface the entries are strictly ascending by
  key, and an entry is stored exactly when \<^verbatim>\<open>get\<close> on its key returns its value. On
  the interval \<open>[a, b]\<close> with both bounds other than \<^verbatim>\<open>None\<close>, \<^verbatim>\<open>range_query\<close> returns
  the stored entries with \<open>a \<le> key \<le> b\<close> when inclusive and with \<open>a < key < b\<close> when
  not, in the order of the stored entries; on \<open>[None, b]\<close> those with key below \<open>b\<close>
  (or equal to it when inclusive); on \<open>[a, None]\<close> those with key above \<open>a\<close> (or equal
  to it when inclusive). A tuple gives the result of the list with the same elements,
  and every result of \<^verbatim>\<open>range_query\<close> is strictly ascending by key.
\<close>

theorem range_query_spec:
  assumes "reachable self"
  shows "key_sorted (stored self) \<and>
     (\<forall>x. (x \<in> set (stored self)) = (kv_get self (nk_key x) = Inr (nk_value x))) \<and>
     (a \<noteq> PyNone \<and> b \<noteq> PyNone \<longrightarrow>
        kv_range_query self (PyList [a, b]) True =
          Inr (filter (\<lambda>x. a \<le> nk_key x \<and> nk_key x \<le> b) (stored self)) \<and>
        kv_range_query self (PyList [a, b]) False =
          Inr (filter (\<lambda>x. a < nk_key x \<and> nk_key x < b) (stored self))) \<and>
     (b \<noteq> PyNone \<longrightarrow>
        kv_range_query self (PyList [PyNone, b]) inc =
          Inr (filter (\<lambda>x. if inc then nk_key x \<le> b else nk_key x < b) (stored self))) \<and>
     (a \<noteq> PyNone \<longrightarrow>
        kv_range_query self (PyList [a, PyNone]) inc =
          Inr (filter (\<lambda>x. if inc then a \<le> nk_key x else a < nk_key x) (stored self))) \<and>
     kv_range_query self (PyTuple xs) inc = kv_range_query self (PyList xs) inc \<and>
     (\<forall>r. kv_range_query self i inc = Inr r \<longrightarrow> key_sorted r)"
proof -
  from assms have inv: "kv_inv self" by (rule reachable_inv)
  have 1: "key_sorted (stored self)" using inv by (simp add: kv_inv_def)
  have 2: "\<forall>x. (x \<in> set (stored self)) = (kv_get self (nk_key x) = Inr (nk_value x))"
    using kv_get_iff [OF inv] by simp
  have 3: "kv_range_query self (PyList [a, b]) True =
          Inr (filter (\<lambda>x. a \<le> nk_key x \<and> nk_key x \<le> b) (stored self))"
     and 4: "kv_range_query self (PyList [a, b]) False =
          Inr (filter (\<lambda>x. a < nk_key x \<and> nk_key x < b) (stored self))"
    if "a \<noteq> PyNone" "b \<noteq> PyNone"
    using that by (simp_all add: range_query_list(1) [OF inv] range_filters cong: filter_cong)
  have 5: "kv_range_query self (PyList [PyNone, b]) inc =
          Inr (filter (\<lambda>x. if inc then nk_key x \<le> b else nk_key x < b) (stored self))"
    by (simp add: range_query_list(1) [OF inv] range_filters(4) cong: filter_cong)
  have 6: "kv_range_query self (PyList [a, PyNone]) inc =
          Inr (filter (\<lambda>x. if inc then a \<le> nk_key x else a < nk_key x) (stored self))"
    if "a \<noteq> PyNone"
    using that by (simp add: range_query_list(1) [OF inv] range_filters(3) cong: filter_cong)
  have 7: "\<forall>r. kv_range_query self i inc = Inr r \<longrightarrow> key_sorted r"
    using range_query_sorted [OF inv] by blast
  from 1 2 3 4 5 6 7 range_query_list(2) [OF inv] show ?thesis by blast
qed

theorem range_query_spec_witness:
  "reachable example_db \<and> PyInt 1 \<noteq> PyNone \<and> PyInt 3 \<noteq> PyNone \<and>
   kv_range_query example_db (PyList [PyInt 1, PyInt 3]) False
     = Inr [NodeKey (PyInt 2) (PyStr ''world'')] \<and>
   kv_range_query example_db (PyList [PyInt 1, PyInt 3]) True
     = Inr [NodeKey (PyInt 1) (PyStr ''hello''), NodeKey (PyInt 2) (PyStr ''world''),
            NodeKey (PyInt 3) (PyStr ''this'')] \<and>
   kv_range_query example_db (PyList [PyNone, PyInt 3]) False
     = Inr [NodeKey (PyInt 1) (PyStr ''hello''), NodeKey (PyInt 2) (PyStr ''world'')] \<and>
   kv_range_query example_db (PyTuple [PyInt 3, PyNone]) True
     = Inr [NodeKey (PyInt 3) (PyStr ''this''), NodeKey (PyInt 4) (PyStr ''is'')]"
  using range_query_spec [OF example_db_reachable, of "PyInt 1" "PyInt 3" False "[PyInt 3, PyNone]"]
    range_query_spec [OF example_db_reachable, of "PyInt 3" "PyInt 3" True "[PyInt 3, PyNone]"]
    example_db_reachable
  by (simp add: example_db_stored less_pyval_def)

section \<open>The interval check of \<open>range_query\<close>\<close>

text \<open>
  C4. The guard of \<^verbatim>\<open>range_query\<close> joins its two tests with \<^verbatim>\<open>and\<close>. On an integer the
  call ends in the \<open>TypeError\<close> of \<^verbatim>\<open>len\<close>, not in \<open>InvalidInterval\<close>; on a list of three
  elements the guard lets the argument pass and the unpacking assignment raises.
\<close>

theorem range_query_malformed_interval:
  "kv_range_query (KV_init IntType None) (PyVal (PyInt 5)) False = Inl TypeError \<and>
   interval_guard (PyList [PyInt 1, PyInt 2, PyInt 3]) = Inr False \<and>
   kv_range_query (KV_init IntType None) (PyList [PyInt 1, PyInt 2, PyInt 3]) False
     = Inl UnpackError"
  by (simp add: kv_range_query_def interval_guard_def)

lemma range_query_pair_not_invalid:
  "kv_range_query self (PyList [a, b]) inc \<noteq> Inl InvalidInterval"
  "kv_range_query self (PyTuple [a, b]) inc \<noteq> Inl InvalidInterval"
  by (simp_all add: kv_range_query_def interval_guard_def)

section \<open>Construction\<close>

text \<open>
  C5. The constructor does not load the mapping it is given: the store built from
  \<^verbatim>\<open>values\<close> is the store built without, and after \<^verbatim>\<open>KV(int, values={1: 'a'})\<close> the
  call \<^verbatim>\<open>get(1)\<close> raises.
\<close>

theorem init_ignores_values:
  "KV_init type_a values = KV_init type_a None \<and>
   kv_get (KV_init IntType (Some [(PyInt 1, PyStr ''a'')])) (PyInt 1) = Inl KeyNotFound"
  by (simp add: kv_get_def KV_init_def BTree_init_def)

section \<open>Persistence\<close>

text \<open>
  C7. \<^verbatim>\<open>dump(name)\<close> writes the pickled store to the file \<^verbatim>\<open>name + '.db'\<close> and returns
  \<^verbatim>\<open>True\<close> when the file can be opened and written; otherwise the I/O error reaches the
  caller. It never returns \<^verbatim>\<open>False\<close>.
\<close>

theorem dump_result:
  "(can_open_w fs (name @ ''.db'') \<and> can_write fs (name @ ''.db'') \<longrightarrow>
      kv_dump self name fs =
        (Inr True, fs\<lparr>files := (files fs)(name @ ''.db'' \<mapsto> Pickled self)\<rparr>)) \<and>
   (\<not> (can_open_w fs (name @ ''.db'') \<and> can_write fs (name @ ''.db'')) \<longrightarrow>
      fst (kv_dump self name fs) = Inl OSError) \<and>
   fst (kv_dump self name fs) \<noteq> Inr False"
  by (simp add: kv_dump_def Let_def)

theorem dump_result_witness:
  "kv_dump (KV_init IntType None) ''sample_store''
     \<lparr>files = Map.empty, can_open_w = (\<lambda>_. True), can_write = (\<lambda>_. True)\<rparr> =
     (Inr True, \<lparr>files = [''sample_store.db'' \<mapsto> Pickled (KV_init IntType None)],
                 can_open_w = (\<lambda>_. True), can_write = (\<lambda>_. True)\<rparr>) \<and>
   fst (kv_dump (KV_init IntType None) ''sample_store''
     \<lparr>files = Map.empty, can_open_w = (\<lambda>_. False), can_write = (\<lambda>_. True)\<rparr>) = Inl OSError"
  using dump_result [of "\<lparr>files = Map.empty, can_open_w = (\<lambda>_. True), can_write = (\<lambda>_. True)\<rparr>"
      "''sample_store''" "KV_init IntType None"]
    dump_result [of "\<lparr>files = Map.empty, can_open_w = (\<lambda>_. False), can_write = (\<lambda>_. True)\<rparr>"
      "''sample_store''" "KV_init IntType None"]
  by simp

text \<open>
  C6. Where the file can be written, \<^verbatim>\<open>dump(name)\<close> returns \<^verbatim>\<open>True\<close> and \<^verbatim>\<open>load(name)\<close>
  on the resulting file system returns a store that gives the same \<^verbatim>\<open>get\<close> for every
  key and the same \<^verbatim>\<open>range_query\<close> for every interval as the store dumped.
\<close>

theorem dump_load_roundtrip:
  assumes "can_open_w fs (name @ ''.db'')" and "can_write fs (name @ ''.db'')"
  shows "fst (kv_dump self name fs) = Inr True \<and>
         (\<exists>kv. kv_load name (snd (kv_dump self name fs)) = Inr kv \<and>
               (\<forall>k. kv_get kv k = kv_get self k) \<and>
               (\<forall>i inc. kv_range_query kv i inc = kv_range_query self i inc))"
  using assms by (simp add: kv_dump_def kv_load_def Let_def)

theorem dump_load_roundtrip_witness:
  "fst (kv_dump (snd (kv_set (KV_init IntType None) (PyInt 1) (PyStr ''hello''))) ''sample_store''
     \<lparr>files = Map.empty, can_open_w = (\<lambda>_. True), can_write = (\<lambda>_. True)\<rparr>) = Inr True \<and>
   (\<exists>kv. kv_load ''sample_store''
           (snd (kv_dump (snd (kv_set (KV_init IntType None) (PyInt 1) (PyStr ''hello'')))
              ''sample_store''
              \<lparr>files = Map.empty, can_open_w = (\<lambda>_. True), can_write = (\<lambda>_. True)\<rparr>)) = Inr kv \<and>
         kv_get kv (PyInt 1) = Inr (PyStr ''hello''))"
proof -
  let ?fs = "\<lparr>files = Map.empty, can_open_w = (\<lambda>_. True), can_write = (\<lambda>_. True)\<rparr>"
  let ?kv1 = "snd (kv_set (KV_init IntType None) (PyInt 1) (PyStr ''hello''))"
  have kv1: "?kv1 = \<lparr>kv_root = Node [NodeKey (PyInt 1) (PyStr ''hello'')] [],
                      kv_type = IntType, kv_t = 10\<rparr>"
    by (simp add: kv_set_def KV_init_def BTree_init_def isinstance_def btree_insert_def
        full_def)
  have g: "kv_get ?kv1 (PyInt 1) = Inr (PyStr ''hello'')"
    by (simp add: kv1 kv_get_def)
  have o: "can_open_w ?fs (''sample_store'' @ ''.db'')" by simp
  have w: "can_write ?fs (''sample_store'' @ ''.db'')" by simp
  from dump_load_roundtrip [OF o w, of ?kv1] g show ?thesis by metis
qed

section \<open>Loading from a dictionary\<close>

lemma load_from_dict_append:
  "kv_load_from_dict self (xs @ ys) =
     (case kv_load_from_dict self xs of
        (Inl e, s) \<Rightarrow> (Inl e, s)
      | (Inr u, s) \<Rightarrow> kv_load_from_dict s ys)"
proof (induction xs arbitrary: self)
  case Nil
  show ?case by simp
next
  case (Cons kv xs)
  obtain k v where kv: "kv = (k, v)" by (cases kv)
  show ?case
    by (cases "kv_set self k v") (auto simp: kv Cons.IH split: sum.splits)
qed

lemma load_from_dict_ok:
  assumes "kv_inv self" and "fst (kv_load_from_dict self d) = Inr ()"
  shows "set (stored (snd (kv_load_from_dict self d))) = set (stored self) \<union> entries_of d"
  using assms
proof (induction d arbitrary: self)
  case Nil
  then show ?case by (simp add: entries_of_def)
next
  case (Cons kv d)
  obtain k v where kv: "kv = (k, v)" by (cases kv)
  let ?s1 = "snd (kv_set self k v)"
  from Cons.prems(2) have ok: "fst (kv_set self k v) = Inr ()"
    and rest: "fst (kv_load_from_dict ?s1 d) = Inr ()"
    by (cases "kv_set self k v"; auto simp: kv split: sum.splits)+
  from kv_set_cases [OF Cons.prems(1), of k v] ok
  have h: "v \<noteq> PyNone" "isinstance k (kv_type self)" "k \<notin> stored_keys self" by auto
  note st1 = stored_keys_ins(1) [OF Cons.prems(1) h]
  have eq: "kv_load_from_dict self (kv # d) = kv_load_from_dict ?s1 d"
    using ok by (cases "kv_set self k v") (auto simp: kv split: sum.splits)
  have "entries_of (kv # d) = insert (NodeKey k v) (entries_of d)"
    by (simp add: entries_of_def kv)
  with Cons.IH [OF kv_inv_ins [OF Cons.prems(1) h] rest] show ?case
    unfolding eq st1 by blast
qed

lemma load_from_dict_foldl:
  "fst (kv_load_from_dict self d) = Inr () \<Longrightarrow>
   kv_load_from_dict self d = (Inr (), foldl set_step self d)"
proof (induction d arbitrary: self)
  case Nil
  show ?case by simp
next
  case (Cons kv d)
  obtain k v where kv: "kv = (k, v)" by (cases kv)
  from Cons.prems have ok: "fst (kv_set self k v) = Inr ()"
    and rest: "fst (kv_load_from_dict (snd (kv_set self k v)) d) = Inr ()"
    by (cases "kv_set self k v"; auto simp: kv split: sum.splits)+
  have "kv_load_from_dict self (kv # d) = kv_load_from_dict (snd (kv_set self k v)) d"
    using ok by (cases "kv_set self k v") (auto simp: kv split: sum.splits)
  with Cons.IH [OF rest] show ?case by (simp add: kv set_step_def)
qed

text \<open>
  C9. \<^verbatim>\<open>load_from_dict\<close> calls \<^verbatim>\<open>set\<close> on the items in iteration order. When the
  items before \<open>(k, v)\<close> are set without an exception and \<^verbatim>\<open>set(k, v)\<close> raises \<open>e\<close>, the
  call raises \<open>e\<close> and the store is the one the calls of \<^verbatim>\<open>set\<close> on the earlier items
  produced: nothing is rolled back and no later item is set. In a store built through
  the interface, \<^verbatim>\<open>get\<close> returns the value of every earlier item, and the entries are
  those held before together with the earlier items.
\<close>

theorem load_from_dict_no_rollback:
  assumes "fst (kv_load_from_dict self pre) = Inr ()"
    and "fst (kv_set (snd (kv_load_from_dict self pre)) k v) = Inl e"
  shows "kv_load_from_dict self pre = (Inr (), foldl set_step self pre) \<and>
         kv_load_from_dict self (pre @ (k, v) # post) = (Inl e, foldl set_step self pre) \<and>
         (reachable self \<longrightarrow>
            (\<forall>(k', v')\<in>set pre. kv_get (foldl set_step self pre) k' = Inr v') \<and>
            set (stored (foldl set_step self pre)) =
              set (stored self) \<union> (\<lambda>(k', v'). NodeKey k' v') ` set pre)"
proof -
  let ?s1 = "foldl set_step self pre"
  have 1: "kv_load_from_dict self pre = (Inr (), ?s1)"
    using assms(1) by (rule load_from_dict_foldl)
  then have s1: "snd (kv_load_from_dict self pre) = ?s1" by simp
  have fail: "kv_set ?s1 k v = (Inl e, ?s1)"
    using assms(2) unfolding s1 by (auto simp: kv_set_def Let_def split: if_splits)
  have 2: "kv_load_from_dict self (pre @ (k, v) # post) = (Inl e, ?s1)"
    by (simp add: load_from_dict_append 1 fail)
  have 3: "(\<forall>(k', v')\<in>set pre. kv_get ?s1 k' = Inr v') \<and>
           set (stored ?s1) = set (stored self) \<union> (\<lambda>(k', v'). NodeKey k' v') ` set pre"
    if r: "reachable self"
  proof -
    from r have inv: "kv_inv self" by (rule reachable_inv)
    then have "kv_inv (snd (kv_load_from_dict self pre))" by (rule kv_inv_load_from_dict)
    then have inv1: "kv_inv ?s1" by (simp add: s1)
    have es: "set (stored ?s1) = set (stored self) \<union> entries_of pre"
      using load_from_dict_ok [OF inv assms(1)] by (simp add: s1)
    have "kv_get ?s1 k' = Inr v'" if "(k', v') \<in> set pre" for k' v'
    proof -
      from that have "NodeKey k' v' \<in> set (stored ?s1)" by (force simp: es entries_of_def)
      from kv_get_stored [OF inv1 this] show ?thesis by simp
    qed
    with es show ?thesis by (auto simp: entries_of_def)
  qed
  from 1 2 3 show ?thesis by blast
qed

theorem load_from_dict_no_rollback_witness:
  "reachable example_db \<and>
   fst (kv_load_from_dict example_db [(PyInt 5, PyStr ''a'')]) = Inr () \<and>
   fst (kv_set (snd (kv_load_from_dict example_db [(PyInt 5, PyStr ''a'')]))
          (PyInt 1) (PyStr ''simple'')) = Inl DuplicateKey \<and>
   kv_load_from_dict example_db
     ([(PyInt 5, PyStr ''a'')] @ (PyInt 1, PyStr ''simple'') # [(PyInt 7, PyStr ''kv store'')])
     = (Inl DuplicateKey, foldl set_step example_db [(PyInt 5, PyStr ''a'')]) \<and>
   kv_get (foldl set_step example_db [(PyInt 5, PyStr ''a'')]) (PyInt 5) = Inr (PyStr ''a'') \<and>
   kv_get (foldl set_step example_db [(PyInt 5, PyStr ''a'')]) (PyInt 7) = Inl KeyNotFound"
proof -
  let ?pre = "[(PyInt 5, PyStr ''a'')]"
  have ok: "fst (kv_load_from_dict example_db ?pre) = Inr ()"
    unfolding example_db_load5 by simp
  have bad: "fst (kv_set (snd (kv_load_from_dict example_db ?pre)) (PyInt 1) (PyStr ''simple''))
               = Inl DuplicateKey"
    unfolding example_db_load5 by (simp add: kv_set_def isinstance_def less_pyval_def)
  note t = load_from_dict_no_rollback [OF ok bad, of "[(PyInt 7, PyStr ''kv store'')]"]
  from t have a: "kv_load_from_dict example_db
     (?pre @ (PyInt 1, PyStr ''simple'') # [(PyInt 7, PyStr ''kv store'')])
     = (Inl DuplicateKey, foldl set_step example_db ?pre)"
    by blast
  from t example_db_reachable
  have "\<forall>(k', v')\<in>set ?pre. kv_get (foldl set_step example_db ?pre) k' = Inr v'"
    by blast
  then have b: "kv_get (foldl set_step example_db ?pre) (PyInt 5) = Inr (PyStr ''a'')"
    by (simp del: foldl.simps)
  from t have "kv_load_from_dict example_db ?pre = (Inr (), foldl set_step example_db ?pre)"
    by blast
  then have "foldl set_step example_db ?pre = snd (kv_load_from_dict example_db ?pre)"
    by simp
  then have c: "kv_get (foldl set_step example_db ?pre) (PyInt 7) = Inl KeyNotFound"
    unfolding example_db_load5 by (simp add: kv_get_def less_pyval_def)
  from a b c ok bad example_db_reachable show ?thesis by blast
qed

section \<open>No stored value is \<open>None\<close>\<close>

text \<open>
  C10. In a store built by the constructor, \<^verbatim>\<open>set\<close> and \<^verbatim>\<open>load_from_dict\<close> no stored
  value is \<^verbatim>\<open>None\<close>. So the engine's search returns \<^verbatim>\<open>None\<close> exactly for the keys
  that are not stored, and \<^verbatim>\<open>get\<close> raises \<open>KeyNotFound\<close> exactly for those keys.
\<close>

theorem reachable_values_not_none:
  assumes "reachable self"
  shows "(\<forall>x\<in>set (stored self). nk_value x \<noteq> PyNone) \<and>
         (\<forall>k. (search (kv_root self) k = PyNone) = (k \<notin> nk_key ` set (stored self))) \<and>
         (\<forall>k. (kv_get self k = Inl KeyNotFound) = (k \<notin> nk_key ` set (stored self)))"
proof -
  from assms have inv: "kv_inv self" by (rule reachable_inv)
  then show ?thesis
    using search_None_iff [OF inv] kv_get_absent_iff [OF inv]
    by (simp add: kv_inv_def stored_keys_def)
qed

theorem reachable_values_not_none_witness:
  "reachable example_db \<and>
   PyNone \<notin> nk_value ` set (stored example_db) \<and>
   search (kv_root example_db) (PyInt 9) = PyNone \<and>
   PyInt 9 \<notin> nk_key ` set (stored example_db) \<and>
   kv_get example_db (PyInt 9) = Inl KeyNotFound"
proof -
  note t = reachable_values_not_none [OF example_db_reachable]
  have k: "PyInt 9 \<notin> nk_key ` set (stored example_db)"
    by (simp add: example_db_stored)
  from t have "\<forall>x\<in>set (stored example_db). nk_value x \<noteq> PyNone" by (rule conjunct1)
  then have a: "PyNone \<notin> nk_value ` set (stored example_db)" by force
  from t k have b: "search (kv_root example_db) (PyInt 9) = PyNone" by blast
  from t k have c: "kv_get example_db (PyInt 9) = Inl KeyNotFound" by blast
  from example_db_reachable a b k c show ?thesis by (intro conjI)
qed

end
